theory Spec2Isabelle
  imports Complex_Main "HOL-Library.Word"
begin

section \<open>Aggregation values of the stats package (aggregation_value.go)\<close>

text \<open>
  Number representation.
  \<^item> Go's \<open>int64\<close> is a 64-bit word: \<open>+\<close>, \<open>-\<close> and \<open>*\<close> wrap around, comparisons
    read the word as two's complement (\<open>sint\<close>).
  \<^item> Go's \<open>float64\<close> is IEEE 754 binary64: a finite value with a 53-bit significand and
    an exponent from -1074 to 971, one of the two zeros, an infinity, or NaN. Every
    arithmetic operation computes the exact result and rounds it to the nearest such
    value, ties to the even significand, and overflows to an infinity; each operation
    is rounded on its own (no fused multiply-add, as on amd64). All NaNs are one value:
    the code never looks at a NaN's payload.
  \<^item> A panic of the Go runtime (index out of range, nil dereference) is an error value.
  \<^item> A method's receiver is the value its pointer refers to (the pointer is not nil), and
    a method returns the receiver as it leaves it; slices are lists, since no two
    aggregators share a \<open>countPerBucket\<close> slice and \<open>bounds\<close> is never written.
\<close>

type_synonym int64 = "64 word"

datatype error = IndexOutOfRange | NilDereference

subsection \<open>float64\<close>

text \<open>\<open>Finite r\<close> is the finite float64 of value \<open>r\<close>, and \<open>Finite 0\<close> the positive
  zero; \<open>NegZero\<close> is the negative zero.\<close>

datatype float64 = Finite real | NegZero | PosInf | NegInf | NaN

text \<open>Rounding to the nearest integer, ties to the even one.\<close>

definition roundEven :: "real \<Rightarrow> int" where
  "roundEven x =
     (let f = \<lfloor>x\<rfloor>
      in if x - of_int f < 1 / 2 then f
         else if 1 / 2 < x - of_int f then f + 1
         else if even f then f else f + 1)"

text \<open>\<open>expSearch k lo r\<close> is the largest \<open>e\<close> from \<open>lo\<close> up to \<open>lo + 2^k - 1\<close> with
  \<open>2^e \<le> r\<close>, found bit by bit, or \<open>lo\<close> when there is none. \<open>binade r\<close> is the binary
  exponent of \<open>r\<close>, and -1022 for every \<open>r\<close> in the subnormal range.\<close>

fun expSearch :: "nat \<Rightarrow> int \<Rightarrow> real \<Rightarrow> int" where
  "expSearch 0 lo r = lo"
| "expSearch (Suc k) lo r =
     (if 2 powi (lo + 2 ^ k) \<le> r then expSearch k (lo + 2 ^ k) r else expSearch k lo r)"

definition binade :: "real \<Rightarrow> int" where
  "binade r = expSearch 11 (- 1022) \<bar>r\<bar>"

text \<open>The multiple of \<open>2^(binade r - 52)\<close> nearest to \<open>r\<close>, ties to even: \<open>r\<close> rounded to
  53 significant bits, or to a multiple of \<open>2^-1074\<close> in the subnormal range.\<close>

definition roundToGrid :: "real \<Rightarrow> real" where
  "roundToGrid r = of_int (roundEven (r / 2 powi (binade r - 52))) * 2 powi (binade r - 52)"

text \<open>The float64 that the exact result \<open>r\<close> of an operation is rounded to.\<close>

definition fl :: "real \<Rightarrow> float64" where
  "fl r =
     (let v = roundToGrid r
      in if 2 ^ 1024 \<le> \<bar>v\<bar> then (if r < 0 then NegInf else PosInf)
         else if v = 0 \<and> r < 0 then NegZero
         else Finite v)"

text \<open>\<open>Finite r\<close> is a float64 only when \<open>r\<close> is representable.\<close>

definition isFloat64 :: "float64 \<Rightarrow> bool" where
  "isFloat64 x = (case x of Finite r \<Rightarrow> fl r = Finite r | _ \<Rightarrow> True)"

definition isZero :: "float64 \<Rightarrow> bool" where
  "isZero x = (x = Finite 0 \<or> x = NegZero)"

definition isInf :: "float64 \<Rightarrow> bool" where
  "isInf x = (x = PosInf \<or> x = NegInf)"

definition valof :: "float64 \<Rightarrow> real" where
  "valof x = (case x of Finite r \<Rightarrow> r | _ \<Rightarrow> 0)"

definition signbit :: "float64 \<Rightarrow> bool" where
  "signbit x =
     (case x of Finite r \<Rightarrow> r < 0 | NegZero \<Rightarrow> True | NegInf \<Rightarrow> True | _ \<Rightarrow> False)"

definition zero :: "bool \<Rightarrow> float64" where
  "zero neg = (if neg then NegZero else Finite 0)"

definition infinity :: "bool \<Rightarrow> float64" where
  "infinity neg = (if neg then NegInf else PosInf)"

definition fneg :: "float64 \<Rightarrow> float64" where
  "fneg x =
     (case x of
        Finite r \<Rightarrow> (if r = 0 then NegZero else Finite (- r))
      | NegZero \<Rightarrow> Finite 0
      | PosInf \<Rightarrow> NegInf
      | NegInf \<Rightarrow> PosInf
      | NaN \<Rightarrow> NaN)"

text \<open>\<open>x + y\<close>. An exact sum of zero is the positive zero, unless both operands are
  negative zeros.\<close>

definition fadd :: "float64 \<Rightarrow> float64 \<Rightarrow> float64" where
  "fadd x y =
     (if x = NaN \<or> y = NaN then NaN
      else if isInf x then (if isInf y \<and> x \<noteq> y then NaN else x)
      else if isInf y then y
      else if valof x + valof y = 0 then zero (signbit x \<and> signbit y)
      else fl (valof x + valof y))"

text \<open>\<open>x - y\<close>.\<close>

definition fsub :: "float64 \<Rightarrow> float64 \<Rightarrow> float64" where
  "fsub x y = fadd x (fneg y)"

text \<open>\<open>x * y\<close>.\<close>

definition fmul :: "float64 \<Rightarrow> float64 \<Rightarrow> float64" where
  "fmul x y =
     (if x = NaN \<or> y = NaN then NaN
      else if isInf x \<or> isInf y
           then (if isZero x \<or> isZero y then NaN else infinity (signbit x \<noteq> signbit y))
      else if valof x * valof y = 0 then zero (signbit x \<noteq> signbit y)
      else fl (valof x * valof y))"

text \<open>\<open>x / y\<close>; a float64 division by zero does not panic.\<close>

definition fdiv :: "float64 \<Rightarrow> float64 \<Rightarrow> float64" where
  "fdiv x y =
     (if x = NaN \<or> y = NaN then NaN
      else if isInf x then (if isInf y then NaN else infinity (signbit x \<noteq> signbit y))
      else if isInf y then zero (signbit x \<noteq> signbit y)
      else if isZero y then (if isZero x then NaN else infinity (signbit x \<noteq> signbit y))
      else if isZero x then zero (signbit x \<noteq> signbit y)
      else fl (valof x / valof y))"

text \<open>\<open>x < y\<close> and \<open>x == y\<close>: false when an operand is NaN; the two zeros are equal.
  \<open>x > y\<close> is \<open>flt y x\<close>.\<close>

definition flt :: "float64 \<Rightarrow> float64 \<Rightarrow> bool" where
  "flt x y =
     (if x = NaN \<or> y = NaN then False
      else if x = PosInf \<or> y = NegInf then False
      else if x = NegInf \<or> y = PosInf then True
      else valof x < valof y)"

definition feq :: "float64 \<Rightarrow> float64 \<Rightarrow> bool" where
  "feq x y =
     (if x = NaN \<or> y = NaN then False
      else if isInf x \<or> isInf y then x = y
      else valof x = valof y)"

text \<open>\<open>math.MaxFloat64\<close> is \<open>(2 - 2^-52) * 2^1023\<close> and
  \<open>math.SmallestNonzeroFloat64\<close> is \<open>2^-1074\<close>, a positive number.\<close>

definition MaxFloat64 :: float64 where
  "MaxFloat64 = Finite ((2 ^ 53 - 1) * 2 ^ 971)"

definition SmallestNonzeroFloat64 :: float64 where
  "SmallestNonzeroFloat64 = Finite (1 / 2 ^ 1074)"

text \<open>\<open>math.Pow(x, 2)\<close>: NaN for NaN, plus infinity for an infinity, the positive zero
  for a zero. For any other \<open>x\<close>, \<open>math.Pow\<close> splits \<open>x\<close> into a fraction and a power of two
  (\<open>math.Frexp\<close>), squares the fraction, which rounds it to 53 bits, and scales the square
  back (\<open>math.Ldexp\<close>), which overflows to plus infinity and rounds once more when the
  result is subnormal. The square of a subnormal \<open>x\<close> is the positive zero whatever the
  fraction is, so \<open>binade\<close> serves as the exponent.\<close>

definition Pow2 :: "float64 \<Rightarrow> float64" where
  "Pow2 x =
     (if x = NaN then NaN
      else if isInf x then PosInf
      else if isZero x then Finite 0
      else let e = binade (valof x);
               m = valof x / 2 powi e
           in fl (roundToGrid (m * m) * 2 powi (2 * e)))"

text \<open>\<open>math.Pow10(-9)\<close>, the quotient \<open>1 / 1e9\<close> of two float64 values.\<close>

definition epsilon :: float64 where
  "epsilon = fdiv (Finite 1) (Finite (10 ^ 9))"

text \<open>\<open>float64(x)\<close> for an \<open>int64\<close> \<open>x\<close>: the nearest float64.\<close>

definition float64_of_int64 :: "int64 \<Rightarrow> float64" where
  "float64_of_int64 x = fl (real_of_int (sint x))"



text \<open>The dynamic values a caller can pass as \<open>v interface{}\<close> to \<open>addSample\<close>: the two
  numeric types of the type switch, and anything else.\<close>

datatype sample = Int64 int64 | Float64 float64 | OtherSample

subsection \<open>Data\<close>

type_synonym AggregationCountValue = int64

record AggregationDistributionValue =
  count :: int64
  min_val :: float64
  max_val :: float64
  mean :: float64
  sumOfSquaredDev :: float64
  countPerBucket :: "int64 list"
  bounds :: "float64 list"

text \<open>A value of the interface \<open>AggregationValue\<close>: a pointer of one of the two
  implementing types (\<open>None\<close> is the nil pointer of that type), or the nil interface.\<close>

datatype AggregationValue =
    CountPtr "AggregationCountValue option"
  | DistributionPtr "AggregationDistributionValue option"
  | NilInterface

subsection \<open>AggregationCountValue\<close>


definition Count_addSample :: "AggregationCountValue \<Rightarrow> sample \<Rightarrow> AggregationCountValue" where
  "Count_addSample a v = a + 1"


definition Count_addToIt ::
  "AggregationCountValue \<Rightarrow> AggregationValue \<Rightarrow> error + AggregationCountValue" where
  "Count_addToIt a av =
     (case av of
        CountPtr p \<Rightarrow> (case p of None \<Rightarrow> Inl NilDereference | Some other \<Rightarrow> Inr (a + other))
      | _ \<Rightarrow> Inr a)"

definition Count_clear :: "AggregationCountValue \<Rightarrow> AggregationCountValue" where
  "Count_clear a = 0"

definition Count_equal :: "AggregationCountValue \<Rightarrow> AggregationValue \<Rightarrow> error + bool" where
  "Count_equal a other =
     (case other of
        CountPtr p \<Rightarrow> (case p of None \<Rightarrow> Inl NilDereference | Some a2 \<Rightarrow> Inr (a = a2))
      | _ \<Rightarrow> Inr False)"

subsection \<open>AggregationDistributionValue\<close>

definition newAggregationDistributionValue :: "float64 list \<Rightarrow> AggregationDistributionValue" where
  "newAggregationDistributionValue bs =
     \<lparr> count = 0, min_val = MaxFloat64, max_val = SmallestNonzeroFloat64, mean = Finite 0,
       sumOfSquaredDev = Finite 0, countPerBucket = replicate (length bs + 1) 0, bounds = bs \<rparr>"

definition Sum :: "AggregationDistributionValue \<Rightarrow> float64" where
  "Sum a = fmul (mean a) (float64_of_int64 (count a))"

definition variance :: "AggregationDistributionValue \<Rightarrow> float64" where
  "variance a =
     (if sint (count a) \<le> 1 then Finite 0
      else fdiv (sumOfSquaredDev a) (float64_of_int64 (count a - 1)))"

text \<open>\<open>cs[i]++\<close>, with the bounds check of the runtime.\<close>

definition increment :: "int64 list \<Rightarrow> nat \<Rightarrow> error + int64 list" where
  "increment cs i = (if i < length cs then Inr (cs[i := cs ! i + 1]) else Inl IndexOutOfRange)"

text \<open>The loop of \<open>incrementBucketCount\<close> from index \<open>i\<close> on: the index of the first
  bound above \<open>f\<close>, or the index after the last bound.\<close>

fun bucketIndex :: "float64 \<Rightarrow> float64 list \<Rightarrow> nat \<Rightarrow> nat" where
  "bucketIndex f [] i = i"
| "bucketIndex f (b # bs) i = (if flt f b then i else bucketIndex f bs (Suc i))"

definition incrementBucketCount ::
  "AggregationDistributionValue \<Rightarrow> float64 \<Rightarrow> error + AggregationDistributionValue" where
  "incrementBucketCount a f =
     (if length (bounds a) = 0
      then (case increment (countPerBucket a) 0 of
              Inl e \<Rightarrow> Inl e
            | Inr cs \<Rightarrow> Inr (a\<lparr>countPerBucket := cs\<rparr>))
      else (case increment (countPerBucket a) (bucketIndex f (bounds a) 0) of
              Inl e \<Rightarrow> Inl e
            | Inr cs \<Rightarrow> Inr (a\<lparr>countPerBucket := cs\<rparr>)))"

text \<open>The body of \<open>addSample\<close> after the type switch.\<close>

definition addFloat ::
  "AggregationDistributionValue \<Rightarrow> float64 \<Rightarrow> error + AggregationDistributionValue" where
  "addFloat a f =
     (let a1 = (if flt f (min_val a) then a\<lparr>min_val := f\<rparr> else a);
          a2 = (if flt (max_val a1) f then a1\<lparr>max_val := f\<rparr> else a1);
          a3 = a2\<lparr>count := count a2 + 1\<rparr>
      in case incrementBucketCount a3 f of
           Inl e \<Rightarrow> Inl e
         | Inr a4 \<Rightarrow>
             if count a4 = 1 then Inr (a4\<lparr>mean := f\<rparr>)
             else
               let oldMean = mean a4;
                   a5 = a4\<lparr>mean := fadd (mean a4)
                                       (fdiv (fsub f (mean a4)) (float64_of_int64 (count a4)))\<rparr>
               in Inr (a5\<lparr>sumOfSquaredDev :=
                              fadd (sumOfSquaredDev a5)
                                   (fmul (fsub f oldMean) (fsub f (mean a5)))\<rparr>))"

definition Dist_addSample ::
  "AggregationDistributionValue \<Rightarrow> sample \<Rightarrow> error + AggregationDistributionValue" where
  "Dist_addSample a v =
     (case v of
        Int64 x \<Rightarrow> addFloat a (float64_of_int64 x)
      | Float64 x \<Rightarrow> addFloat a x
      | OtherSample \<Rightarrow> Inr a)"

text \<open>\<open>for i, c := range src { dst[i] = c }\<close>.\<close>

fun copyBuckets :: "int64 list \<Rightarrow> int64 list \<Rightarrow> error + int64 list" where
  "copyBuckets dst [] = Inr dst"
| "copyBuckets [] (c # src) = Inl IndexOutOfRange"
| "copyBuckets (d # dst) (c # src) =
     (case copyBuckets dst src of Inl e \<Rightarrow> Inl e | Inr r \<Rightarrow> Inr (c # r))"

text \<open>\<open>multiplyByFraction\<close> returns the receiver as it leaves it, and the new value.\<close>

definition Dist_multiplyByFraction ::
  "AggregationDistributionValue \<Rightarrow> float64 \<Rightarrow>
     error + AggregationDistributionValue \<times> AggregationDistributionValue" where
  "Dist_multiplyByFraction a fraction =
     (let ret = newAggregationDistributionValue (bounds a)
      in case copyBuckets (countPerBucket ret) (countPerBucket a) of
           Inl e \<Rightarrow> Inl e
         | Inr cs \<Rightarrow>
             Inr (a, ret\<lparr>countPerBucket := cs, count := count a, min_val := min_val a,
                         max_val := max_val a, mean := mean a,
                         sumOfSquaredDev := sumOfSquaredDev a\<rparr>))"

text \<open>\<open>for i := range src { dst[i] = dst[i] + src[i] }\<close>.\<close>

fun addBuckets :: "int64 list \<Rightarrow> int64 list \<Rightarrow> error + int64 list" where
  "addBuckets dst [] = Inr dst"
| "addBuckets [] (c # src) = Inl IndexOutOfRange"
| "addBuckets (d # dst) (c # src) =
     (case addBuckets dst src of Inl e \<Rightarrow> Inl e | Inr r \<Rightarrow> Inr ((d + c) # r))"

text \<open>The body of \<open>addToIt\<close> once the argument is a distribution with a non-zero count.\<close>

definition mergeDist ::
  "AggregationDistributionValue \<Rightarrow> AggregationDistributionValue \<Rightarrow>
     error + AggregationDistributionValue" where
  "mergeDist a other =
     (let a1 = (if flt (min_val other) (min_val a) then a\<lparr>min_val := min_val other\<rparr> else a);
          a2 = (if flt (max_val a1) (max_val other) then a1\<lparr>max_val := max_val other\<rparr> else a1);
          delta = fsub (mean other) (mean a2);
          a3 = a2\<lparr>sumOfSquaredDev :=
                    fadd (fadd (sumOfSquaredDev a2) (sumOfSquaredDev other))
                         (fdiv (fmul (Pow2 delta) (float64_of_int64 (count a2 * count other)))
                               (float64_of_int64 (count a2 + count other)))\<rparr>;
          a4 = a3\<lparr>mean := fdiv (fadd (Sum a3) (Sum other))
                                (float64_of_int64 (count a3 + count other))\<rparr>;
          a5 = a4\<lparr>count := count a4 + count other\<rparr>
      in case addBuckets (countPerBucket a5) (countPerBucket other) of
           Inl e \<Rightarrow> Inl e
         | Inr cs \<Rightarrow> Inr (a5\<lparr>countPerBucket := cs\<rparr>))"

definition Dist_addToIt ::
  "AggregationDistributionValue \<Rightarrow> AggregationValue \<Rightarrow> error + AggregationDistributionValue" where
  "Dist_addToIt a av =
     (case av of
        DistributionPtr p \<Rightarrow>
          (case p of
             None \<Rightarrow> Inl NilDereference
           | Some other \<Rightarrow> if count other = 0 then Inr a else mergeDist a other)
      | _ \<Rightarrow> Inr a)"

definition Dist_clear :: "AggregationDistributionValue \<Rightarrow> AggregationDistributionValue" where
  "Dist_clear a =
     a\<lparr>count := 0, min_val := MaxFloat64, max_val := SmallestNonzeroFloat64, mean := Finite 0,
       sumOfSquaredDev := Finite 0, countPerBucket := map (\<lambda>c. 0) (countPerBucket a)\<rparr>"

text \<open>The comparison loop of \<open>equal\<close>, run on two slices of the same length: \<open>False\<close>
  at the first index where they differ.\<close>

fun sameBuckets :: "int64 list \<Rightarrow> int64 list \<Rightarrow> bool" where
  "sameBuckets (c # cs) (d # ds) = (if c \<noteq> d then False else sameBuckets cs ds)"
| "sameBuckets cs ds = True"

definition Dist_equal :: "AggregationDistributionValue \<Rightarrow> AggregationValue \<Rightarrow> bool" where
  "Dist_equal a other =
     (case other of
        DistributionPtr p \<Rightarrow>
          (case p of
             None \<Rightarrow> False
           | Some a2 \<Rightarrow>
               if length (countPerBucket a) \<noteq> length (countPerBucket a2) then False
               else if \<not> sameBuckets (countPerBucket a) (countPerBucket a2) then False
               else count a = count a2 \<and> feq (min_val a) (min_val a2)
                    \<and> feq (max_val a) (max_val a2)
                    \<and> flt (Pow2 (fsub (mean a) (mean a2))) epsilon
                    \<and> flt (Pow2 (fsub (variance a) (variance a2))) epsilon)
      | _ \<Rightarrow> False)"

text \<open>The shape every aggregator built by \<open>newAggregationDistributionValue\<close> has and
  keeps: one bucket more than bounds.\<close>

definition wellFormed :: "AggregationDistributionValue \<Rightarrow> bool" where
  "wellFormed a = (length (countPerBucket a) = length (bounds a) + 1)"

subsection \<open>Vocabulary of the properties\<close>

text \<open>The float64 that the type switch of \<open>addSample\<close> extracts from a numeric
  sample, \<open>float64(x)\<close> for an int64 \<open>x\<close>; \<open>None\<close> for a sample that is not numeric.\<close>

definition numericValue :: "sample \<Rightarrow> float64 option" where
  "numericValue v =
     (case v of Int64 x \<Rightarrow> Some (float64_of_int64 x) | Float64 x \<Rightarrow> Some x
      | OtherSample \<Rightarrow> None)"


text \<open>\<open>x <= y\<close> on float64, and the float64 values that are numbers: neither an
  infinity nor NaN.\<close>

definition fle :: "float64 \<Rightarrow> float64 \<Rightarrow> bool" where
  "fle x y = (flt x y \<or> feq x y)"

definition isFinite :: "float64 \<Rightarrow> bool" where
  "isFinite x = (case x of Finite r \<Rightarrow> True | NegZero \<Rightarrow> True | _ \<Rightarrow> False)"

text \<open>The variance as the specification has it: \<open>sumSq / (count - 1)\<close> when
  \<open>count > 1\<close>, else 0, with \<open>count - 1\<close> taken over the integers and then converted
  to float64, and the quotient rounded.\<close>

definition specVariance :: "AggregationDistributionValue \<Rightarrow> float64" where
  "specVariance a =
     (if 1 < sint (count a)
      then fdiv (sumOfSquaredDev a) (fl (real_of_int (sint (count a) - 1)))
      else Finite 0)"

text \<open>Two states of the specification's scenario B (bounds \<open>[2]\<close>): after the sample 1,
  and after the samples 1 and 5.\<close>

definition scenarioB1 :: AggregationDistributionValue where
  "scenarioB1 = \<lparr>count = 1, min_val = Finite 1, max_val = Finite 1, mean = Finite 1,
                  sumOfSquaredDev = Finite 0, countPerBucket = [1, 0], bounds = [Finite 2]\<rparr>"

definition scenarioB2 :: AggregationDistributionValue where
  "scenarioB2 = \<lparr>count = 2, min_val = Finite 1, max_val = Finite 5, mean = Finite 3,
                  sumOfSquaredDev = Finite 8, countPerBucket = [1, 1], bounds = [Finite 2]\<rparr>"

text \<open>A sequence of calls on distribution aggregators. The aggregators live in a
  store, a list indexed in order of creation. \<open>NewAggregator bs\<close> appends the zeroed
  aggregator over the bounds \<open>bs\<close>; \<open>AddSampleTo i v\<close> is \<open>a\<^sub>i.addSample(v)\<close>;
  \<open>AddToItFrom i j\<close> is \<open>a\<^sub>i.addToIt(a\<^sub>j)\<close>. A call on an index that holds no
  aggregator is a call on a nil pointer. In \<open>a.addToIt(a)\<close> the code reads each field
  of the argument before it writes that field of the receiver, so the call does what
  merging an equal copy does, and \<open>step\<close> passes the argument by value.\<close>

datatype call =
    NewAggregator "float64 list"
  | AddSampleTo nat sample
  | AddToItFrom nat nat



text \<open>A sample in the range where the differences of \<open>addSample\<close> cannot overflow: any
  int64, and a float64 that is a number of magnitude at most \<open>2^1022\<close>.\<close>

definition moderate :: "sample \<Rightarrow> bool" where
  "moderate v =
     (case v of
        Float64 x \<Rightarrow> isFloat64 x \<and> isFinite x \<and> \<bar>valof x\<bar> \<le> 2 ^ 1022
      | _ \<Rightarrow> True)"

text \<open>The calls that create an aggregator or add a sample of that range; not the merges.\<close>

definition sampling :: "call \<Rightarrow> bool" where
  "sampling c =
     (case c of NewAggregator bs \<Rightarrow> True | AddSampleTo i v \<Rightarrow> moderate v
      | AddToItFrom i j \<Rightarrow> False)"

text \<open>States and calls that the properties are tried on.
  \<^item> \<open>twoOnes\<close>: an aggregator without bounds after the sample 1.0 twice.
  \<^item> \<open>manyZeros\<close> and \<open>manyOnes\<close>: aggregators without bounds after \<open>2^32\<close> samples
    0.0, and after \<open>2^32\<close> samples 1.0.
  \<^item> \<open>nearMeanA\<close> and \<open>nearMeanB\<close>: the state \<open>scenarioB2\<close> with two other means, both
    float64 values, about \<open>3.16e-5\<close> and \<open>2.5e-21\<close>.
  \<^item> \<open>tenth\<close> is the float64 nearest to 0.1, the value of the Go literal \<open>0.1\<close>. The
    calls \<open>tenths\<close> add the sample 0.1 to a new aggregator, add it twice to a second new
    aggregator, and merge the second into the first; \<open>tenthsState n m\<close> is an
    aggregator without bounds that holds \<open>n\<close> samples 0.1 and has the mean \<open>m\<close>.\<close>

definition twoOnes :: AggregationDistributionValue where
  "twoOnes = \<lparr>count = 2, min_val = Finite 1, max_val = Finite 1, mean = Finite 1,
               sumOfSquaredDev = Finite 0, countPerBucket = [2], bounds = []\<rparr>"



definition nearMeanA :: AggregationDistributionValue where
  "nearMeanA = scenarioB2\<lparr>mean := Finite (4666698134970813 / 2 ^ 67)\<rparr>"

definition nearMeanB :: AggregationDistributionValue where
  "nearMeanB = scenarioB2\<lparr>mean := Finite (3 / 2 ^ 70)\<rparr>"






section \<open>Properties\<close>

subsection \<open>Rounding to the nearest integer\<close>

subsection \<open>roundEven\<close>

lemma roundEven_of_int [simp]: "roundEven (of_int k) = k"
  by (simp add: roundEven_def)

lemma roundEven_bounds: "of_int (roundEven x) \<le> x + 1 / 2 \<and> x - 1 / 2 \<le> of_int (roundEven x)"
  unfolding roundEven_def Let_def by (auto; linarith)

lemma roundEven_floor_cases: "roundEven x = \<lfloor>x\<rfloor> \<or> roundEven x = \<lfloor>x\<rfloor> + 1"
  by (simp add: roundEven_def Let_def)

lemma roundEven_mono:
  assumes "x \<le> y"
  shows "roundEven x \<le> roundEven y"
proof (cases "\<lfloor>x\<rfloor> = \<lfloor>y\<rfloor>")
  case True
  then show ?thesis using assms unfolding roundEven_def Let_def by auto
next
  case False
  then have "\<lfloor>x\<rfloor> < \<lfloor>y\<rfloor>" using assms floor_mono [of x y] by linarith
  moreover have "roundEven x \<le> \<lfloor>x\<rfloor> + 1" using roundEven_floor_cases [of x] by auto
  moreover have "\<lfloor>y\<rfloor> \<le> roundEven y" using roundEven_floor_cases [of y] by auto
  ultimately show ?thesis by linarith
qed

lemma roundEven_le: "x \<le> of_int k \<Longrightarrow> roundEven x \<le> k"
  using roundEven_mono [of x "of_int k"] by simp

lemma roundEven_ge: "of_int k \<le> x \<Longrightarrow> k \<le> roundEven x"
  using roundEven_mono [of "of_int k" x] by simp

lemma roundEven_minus: "roundEven (- x) = - roundEven x"
proof (cases "x = of_int \<lfloor>x\<rfloor>")
  case True
  then obtain k where "x = of_int k" by metis
  then have "- x = of_int (- k)" by simp
  then show ?thesis unfolding \<open>x = of_int k\<close> by (simp only: roundEven_of_int)
next
  case False
  then have c: "\<lceil>x\<rceil> = \<lfloor>x\<rfloor> + 1" by (simp only: ceiling_altdef if_False)
  have fl: "\<lfloor>- x\<rfloor> = - \<lfloor>x\<rfloor> - 1"
    unfolding floor_minus c by linarith
  have lt: "of_int \<lfloor>x\<rfloor> < x" using False of_int_floor_le [of x] by (metis less_le)
  have "x < of_int \<lfloor>x\<rfloor> + 1" by linarith
  show ?thesis
    unfolding roundEven_def Let_def fl using lt \<open>x < of_int \<lfloor>x\<rfloor> + 1\<close>
    by (auto simp: algebra_simps)
qed

subsection \<open>The binary exponent\<close>

lemma powi_mono: "a \<le> b \<Longrightarrow> (2::real) powi a \<le> 2 powi b"
  by (rule power_int_increasing) simp_all

lemma powi_strict_mono: "a < b \<Longrightarrow> (2::real) powi a < 2 powi b"
  by (rule power_int_strict_increasing) simp_all

lemma powi_less_imp_less: "(2::real) powi a < 2 powi b \<Longrightarrow> a < b"
  using powi_mono [of b a] by (cases "a < b") auto

lemma powi_pos [simp]: "0 < (2::real) powi a"
  by simp

lemma powi_add: "(2::real) powi (a + b) = 2 powi a * 2 powi b"
  by (simp add: power_int_add)

lemma powi_diff: "(2::real) powi (a - b) = 2 powi a / 2 powi b"
  by (simp add: power_int_diff)

lemma expSearch_spec:
  "lo \<le> expSearch k lo r \<and> expSearch k lo r < lo + 2 ^ k \<and>
   (expSearch k lo r = lo \<or> 2 powi (expSearch k lo r) \<le> r) \<and>
   (expSearch k lo r + 1 < lo + 2 ^ k \<longrightarrow> r < 2 powi (expSearch k lo r + 1))"
proof (induction k arbitrary: lo)
  case 0
  then show ?case by simp
next
  case (Suc k)
  show ?case
  proof (cases "2 powi (lo + 2 ^ k) \<le> r")
    case True
    then have e: "expSearch (Suc k) lo r = expSearch k (lo + 2 ^ k) r" by simp
    from Suc [of "lo + 2 ^ k"] True show ?thesis unfolding e by auto
  next
    case False
    then have e: "expSearch (Suc k) lo r = expSearch k lo r" by simp
    have r: "r < 2 powi (lo + 2 ^ k)" using False by simp
    from Suc [of lo] have ih: "lo \<le> expSearch k lo r" "expSearch k lo r < lo + 2 ^ k"
      "expSearch k lo r = lo \<or> 2 powi (expSearch k lo r) \<le> r"
      "expSearch k lo r + 1 < lo + 2 ^ k \<longrightarrow> r < 2 powi (expSearch k lo r + 1)" by auto
    have "r < 2 powi (expSearch k lo r + 1)"
    proof (cases "expSearch k lo r + 1 < lo + 2 ^ k")
      case True
      then show ?thesis using ih(4) by simp
    next
      case False
      then have "expSearch k lo r + 1 = lo + 2 ^ k" using ih(2) by linarith
      then show ?thesis using r by simp
    qed
    then show ?thesis unfolding e using ih by auto
  qed
qed

lemma binade_range: "- 1022 \<le> binade r" "binade r \<le> 1025"
  using expSearch_spec [of "- 1022" 11 "\<bar>r\<bar>"] by (simp_all add: binade_def)

lemma binade_lower: "- 1022 < binade r \<Longrightarrow> 2 powi (binade r) \<le> \<bar>r\<bar>"
  using expSearch_spec [of "- 1022" 11 "\<bar>r\<bar>"] by (auto simp: binade_def)

lemma binade_upper: "binade r < 1025 \<Longrightarrow> \<bar>r\<bar> < 2 powi (binade r + 1)"
  using expSearch_spec [of "- 1022" 11 "\<bar>r\<bar>"] by (auto simp: binade_def)

lemma binade_minus [simp]: "binade (- r) = binade r"
  by (simp add: binade_def)

lemma binade_abs [simp]: "binade \<bar>r\<bar> = binade r"
  by (simp add: binade_def)

lemma binade_eqI:
  assumes "2 powi e \<le> \<bar>r\<bar>" and "\<bar>r\<bar> < 2 powi (e + 1)" and "- 1022 \<le> e" and "e \<le> 1025"
  shows "binade r = e"
proof (rule antisym)
  show "binade r \<le> e"
  proof (cases "- 1022 < binade r")
    case True
    then have "2 powi (binade r) \<le> \<bar>r\<bar>" by (rule binade_lower)
    then have "2 powi (binade r) < (2::real) powi (e + 1)" using assms(2) by linarith
    then have "binade r < e + 1" by (rule powi_less_imp_less)
    then show ?thesis by simp
  next
    case False
    then show ?thesis using assms(3) binade_range(1) [of r] by linarith
  qed
  show "e \<le> binade r"
  proof (cases "binade r < 1025")
    case True
    then have "\<bar>r\<bar> < 2 powi (binade r + 1)" by (rule binade_upper)
    then have "2 powi e < (2::real) powi (binade r + 1)" using assms(1) by linarith
    then have "e < binade r + 1" by (rule powi_less_imp_less)
    then show ?thesis by simp
  next
    case False
    then show ?thesis using assms(4) binade_range(2) [of r] by linarith
  qed
qed

lemma binade_subnormal:
  assumes "\<bar>r\<bar> < 2 powi (- 1021)"
  shows "binade r = - 1022"
proof (rule ccontr)
  assume "binade r \<noteq> - 1022"
  then have b: "- 1021 \<le> binade r" using binade_range(1) [of r] by linarith
  then have "2 powi (binade r) \<le> \<bar>r\<bar>" by (intro binade_lower) linarith
  moreover have "(2::real) powi (- 1021) \<le> 2 powi (binade r)" using b by (rule powi_mono)
  ultimately show False using assms by linarith
qed

lemma binade_mono:
  assumes "\<bar>r\<bar> \<le> \<bar>s\<bar>"
  shows "binade r \<le> binade s"
proof (cases "- 1022 < binade r \<and> binade s < 1025")
  case True
  then have "2 powi (binade r) \<le> \<bar>r\<bar>" "\<bar>s\<bar> < 2 powi (binade s + 1)"
    by (simp_all add: binade_lower binade_upper)
  then have "2 powi (binade r) < (2::real) powi (binade s + 1)" using assms by linarith
  then have "binade r < binade s + 1" by (rule powi_less_imp_less)
  then show ?thesis by simp
next
  case False
  then show ?thesis using binade_range [of r] binade_range [of s] by linarith
qed

subsection \<open>Rounding to a float64\<close>

lemma roundToGrid_minus: "roundToGrid (- r) = - roundToGrid r"
  by (simp add: roundToGrid_def roundEven_minus)

lemma roundEven_0 [simp]: "roundEven 0 = 0"
  using roundEven_of_int [of 0] by simp

lemma roundToGrid_0 [simp]: "roundToGrid 0 = 0"
  by (simp add: roundToGrid_def)

lemma roundToGrid_nonneg: "0 \<le> r \<Longrightarrow> 0 \<le> roundToGrid r"
proof -
  assume "0 \<le> r"
  then have "of_int 0 \<le> r / 2 powi (binade r - 52)" by simp
  then have "0 \<le> roundEven (r / 2 powi (binade r - 52))" by (rule roundEven_ge)
  then show ?thesis by (simp add: roundToGrid_def)
qed

lemma roundToGrid_ge_binade:
  assumes "- 1022 < binade r" and "0 \<le> r"
  shows "2 powi (binade r) \<le> roundToGrid r"
proof -
  let ?u = "(2::real) powi (binade r - 52)"
  have "2 powi (binade r) \<le> r" using binade_lower [OF assms(1)] assms(2) by simp
  then have "2 powi (binade r) / ?u \<le> r / ?u" by (simp add: divide_right_mono)
  moreover have "2 powi (binade r) / ?u = (2::real) powi 52"
    by (simp add: powi_diff)
  ultimately have "of_int (2 ^ 52) \<le> r / ?u" by simp
  then have "2 ^ 52 \<le> roundEven (r / ?u)" by (rule roundEven_ge)
  then have "(2::real) ^ 52 \<le> of_int (roundEven (r / ?u))"
    by (metis of_int_le_iff of_int_numeral of_int_power)
  then have "2 ^ 52 * ?u \<le> of_int (roundEven (r / ?u)) * ?u"
    by (simp add: mult_right_mono)
  moreover have "2 ^ 52 * ?u = (2::real) powi (binade r)"
    by (simp add: powi_diff)
  ultimately show ?thesis unfolding roundToGrid_def by linarith
qed

lemma roundEven_grid_bound:
  assumes "binade r < 1025" and "0 \<le> r"
  shows "roundEven (r / 2 powi (binade r - 52)) \<le> 2 ^ 53"
proof -
  let ?u = "(2::real) powi (binade r - 52)"
  have "r < 2 powi (binade r + 1)" using binade_upper [OF assms(1)] assms(2) by simp
  then have "r / ?u < 2 powi (binade r + 1) / ?u" by (simp add: divide_strict_right_mono)
  moreover have "2 powi (binade r + 1) / ?u = (2::real) powi 53"
    by (simp add: powi_diff [symmetric] del: power_int_numeral)
  ultimately have "r / ?u \<le> of_int (2 ^ 53)" by simp
  then show ?thesis by (rule roundEven_le)
qed

lemma roundToGrid_le_binade:
  assumes "binade r < 1025" and "0 \<le> r"
  shows "roundToGrid r \<le> 2 powi (binade r + 1)"
proof -
  let ?u = "(2::real) powi (binade r - 52)"
  have "roundEven (r / ?u) \<le> 2 ^ 53" using assms by (rule roundEven_grid_bound)
  then have "of_int (roundEven (r / ?u)) \<le> (2::real) ^ 53"
    by (metis of_int_le_iff of_int_numeral of_int_power)
  then have "of_int (roundEven (r / ?u)) * ?u \<le> 2 ^ 53 * ?u"
    by (simp add: mult_right_mono)
  moreover have "2 ^ 53 * ?u = (2::real) powi (binade r + 1)"
  proof -
    have "binade r + 1 = 53 + (binade r - 52)" by simp
    then have "(2::real) powi (binade r + 1) = 2 powi (53 + (binade r - 52))" by (rule arg_cong)
    also have "\<dots> = 2 powi 53 * ?u" by (rule powi_add)
    finally show ?thesis by simp
  qed
  ultimately show ?thesis unfolding roundToGrid_def by linarith
qed

lemma roundToGrid_mono_nonneg:
  assumes "0 \<le> r" and "r \<le> s"
  shows "roundToGrid r \<le> roundToGrid s"
proof -
  have b: "binade r \<le> binade s" using assms by (intro binade_mono) simp
  show ?thesis
  proof (cases "binade r = binade s")
    case True
    let ?u = "(2::real) powi (binade s - 52)"
    have "r / ?u \<le> s / ?u" using assms(2) by (simp add: divide_right_mono)
    then have "roundEven (r / ?u) \<le> roundEven (s / ?u)" by (rule roundEven_mono)
    then have "of_int (roundEven (r / ?u)) * ?u \<le> of_int (roundEven (s / ?u)) * ?u"
      by (simp add: mult_right_mono)
    then show ?thesis by (simp add: roundToGrid_def True)
  next
    case False
    then have lt: "binade r < binade s" using b by simp
    then have "binade r < 1025" "- 1022 < binade s"
      using binade_range [of r] binade_range [of s] by linarith+
    then have "roundToGrid r \<le> 2 powi (binade r + 1)" "2 powi (binade s) \<le> roundToGrid s"
      using assms by (simp_all add: roundToGrid_le_binade roundToGrid_ge_binade)
    moreover have "(2::real) powi (binade r + 1) \<le> 2 powi (binade s)"
      using lt by (intro powi_mono) simp
    ultimately show ?thesis by linarith
  qed
qed

lemma roundToGrid_mono:
  assumes "r \<le> s"
  shows "roundToGrid r \<le> roundToGrid s"
proof (cases "0 \<le> r")
  case True
  then show ?thesis using assms by (rule roundToGrid_mono_nonneg)
next
  case False
  show ?thesis
  proof (cases "0 \<le> s")
    case True
    have "0 \<le> roundToGrid (- r)" using False by (intro roundToGrid_nonneg) simp
    then have "roundToGrid r \<le> 0" by (simp add: roundToGrid_minus)
    moreover have "0 \<le> roundToGrid s" using True by (rule roundToGrid_nonneg)
    ultimately show ?thesis by linarith
  next
    case False
    then have "roundToGrid (- s) \<le> roundToGrid (- r)"
      using assms by (intro roundToGrid_mono_nonneg) simp_all
    then show ?thesis by (simp add: roundToGrid_minus)
  qed
qed

lemma powi_le_imp_le: "(2::real) powi a \<le> 2 powi b \<Longrightarrow> a \<le> b"
  using powi_strict_mono [of b a] by (cases "a \<le> b") auto

lemma powi_of_int: "0 \<le> n \<Longrightarrow> (2::real) powi n = of_int (2 ^ nat n)"
  by (simp add: power_int_nonneg_exp)

lemma roundToGrid_integral:
  assumes "r / 2 powi (binade r - 52) = of_int m"
  shows "roundToGrid r = r"
proof -
  have "roundToGrid r = of_int m * 2 powi (binade r - 52)"
    unfolding roundToGrid_def assms by simp
  also have "\<dots> = r" using assms by (simp add: field_simps)
  finally show ?thesis .
qed

lemma roundToGrid_fixed:
  assumes r: "r = of_int k * 2 powi q0" and k: "\<bar>k\<bar> \<le> 2 ^ 53" and q0: "- 1074 \<le> q0"
  shows "roundToGrid r = r"
proof (cases "binade r - 52 \<le> q0")
  case True
  define q where "q = binade r - 52"
  have "q \<le> q0" using True by (simp add: q_def)
  then have p: "(2::real) powi (q0 - q) = of_int (2 ^ nat (q0 - q))"
    by (intro powi_of_int) simp
  have "r / 2 powi q = of_int k * (2 powi q0 / 2 powi q)" by (subst r) simp
  also have "\<dots> = of_int k * 2 powi (q0 - q)" by (simp only: powi_diff)
  also have "\<dots> = of_int (k * 2 ^ nat (q0 - q))" unfolding p by simp
  finally have "r / 2 powi (binade r - 52) = of_int (k * 2 ^ nat (q0 - q))"
    unfolding q_def .
  then show ?thesis by (rule roundToGrid_integral)
next
  case False
  then have b: "- 1022 < binade r" using q0 by linarith
  have "\<bar>r\<bar> = of_int \<bar>k\<bar> * 2 powi q0" unfolding r by (simp add: abs_mult)
  moreover have "of_int \<bar>k\<bar> \<le> (2::real) ^ 53" using k
    by (metis of_int_le_iff of_int_numeral of_int_power)
  ultimately have up: "\<bar>r\<bar> \<le> 2 ^ 53 * 2 powi q0" by (simp add: mult_right_mono)
  have e53: "2 ^ 53 * 2 powi q0 = (2::real) powi (53 + q0)"
    using powi_add [of 53 q0] by simp
  have lo: "2 powi (binade r) \<le> \<bar>r\<bar>" using b by (rule binade_lower)
  then have "(2::real) powi (binade r) \<le> 2 powi (53 + q0)" using up e53 by linarith
  then have "binade r \<le> 53 + q0" by (rule powi_le_imp_le)
  then have be: "binade r = 53 + q0" using False by linarith
  have "2 ^ 53 * 2 powi q0 \<le> of_int \<bar>k\<bar> * (2::real) powi q0"
    using lo \<open>\<bar>r\<bar> = of_int \<bar>k\<bar> * 2 powi q0\<close> e53 be by simp
  then have "(2::real) ^ 53 \<le> of_int \<bar>k\<bar>" by (simp add: mult_le_cancel_right)
  then have "2 ^ 53 \<le> \<bar>k\<bar>" by (metis of_int_le_iff of_int_numeral of_int_power)
  then have ke: "\<bar>k\<bar> = 2 ^ 53" using k by linarith
  then have "k = 2 ^ 53 \<or> k = - (2 ^ 53)" by linarith
  then have k2: "k = 2 * (k div 2)" by auto
  define q where "q = binade r - 52"
  have qe: "q = q0 + 1" using be by (simp add: q_def)
  have "r / 2 powi q = of_int k * (2 powi q0 / 2 powi q)" by (subst r) simp
  also have "\<dots> = of_int k * 2 powi (q0 - q)" by (simp only: powi_diff)
  also have "\<dots> = of_int k / 2" unfolding qe by simp
  also have "\<dots> = of_int (k div 2)" using k2
    by (metis nonzero_mult_div_cancel_left of_int_mult of_int_numeral zero_neq_numeral)
  finally have "r / 2 powi (binade r - 52) = of_int (k div 2)" unfolding q_def .
  then show ?thesis by (rule roundToGrid_integral)
qed

lemma roundToGrid_form:
  assumes "binade r < 1025"
  shows "\<bar>roundEven (r / 2 powi (binade r - 52))\<bar> \<le> 2 ^ 53"
proof (cases "0 \<le> r")
  case True
  then have "roundEven (r / 2 powi (binade r - 52)) \<le> 2 ^ 53"
    using assms by (intro roundEven_grid_bound)
  moreover have "0 \<le> roundEven (r / 2 powi (binade r - 52))"
    using True by (intro roundEven_ge) simp
  ultimately show ?thesis by simp
next
  case False
  then have "roundEven (- r / 2 powi (binade (- r) - 52)) \<le> 2 ^ 53"
    using assms by (intro roundEven_grid_bound) simp_all
  then have "- roundEven (r / 2 powi (binade r - 52)) \<le> 2 ^ 53"
    using roundEven_minus [of "r / 2 powi (binade r - 52)"] by simp
  moreover have "roundEven (r / 2 powi (binade r - 52)) \<le> 0"
    using False by (intro roundEven_le) (simp add: divide_nonpos_pos)
  ultimately show ?thesis by simp
qed

lemma roundToGrid_idem:
  assumes "binade r < 1025"
  shows "roundToGrid (roundToGrid r) = roundToGrid r"
proof (rule roundToGrid_fixed)
  show "roundToGrid r = of_int (roundEven (r / 2 powi (binade r - 52))) * 2 powi (binade r - 52)"
    by (simp add: roundToGrid_def)
  show "\<bar>roundEven (r / 2 powi (binade r - 52))\<bar> \<le> 2 ^ 53"
    using assms by (rule roundToGrid_form)
  show "- 1074 \<le> binade r - 52" using binade_range(1) [of r] by simp
qed

lemma binade_lt:
  assumes "\<bar>r\<bar> < 2 powi 1025"
  shows "binade r < 1025"
proof (rule ccontr)
  assume "\<not> binade r < 1025"
  then have b: "binade r = 1025" using binade_range(2) [of r] by linarith
  then have "2 powi (binade r) \<le> \<bar>r\<bar>" by (intro binade_lower) simp
  then show False using assms b by simp
qed

lemma roundEven_half_less:
  assumes "1 \<le> k"
  shows "roundEven (of_int k / 2) < k"
proof (cases "k = 1")
  case True
  then show ?thesis by (simp add: roundEven_def)
next
  case False
  then have "2 \<le> k" using assms by simp
  then have "real_of_int k / 2 + 1 / 2 < of_int k" by simp
  moreover have "of_int (roundEven (of_int k / 2)) \<le> real_of_int k / 2 + 1 / 2"
    using roundEven_bounds [of "of_int k / 2"] by simp
  ultimately have "real_of_int (roundEven (of_int k / 2)) < of_int k" by linarith
  then show ?thesis by simp
qed

lemma roundToGrid_half_less:
  assumes pos: "0 < s" and fixed: "roundToGrid s = s" and b: "binade s < 1025"
    and r: "r \<le> s / 2"
  shows "roundToGrid r < s"
proof -
  define k where "k = roundEven (s / 2 powi (binade s - 52))"
  have sk: "s = of_int k * 2 powi (binade s - 52)"
    using fixed by (simp add: roundToGrid_def k_def)
  have kpos: "1 \<le> k"
  proof (rule ccontr)
    assume "\<not> 1 \<le> k"
    then have "real_of_int k \<le> 0" by simp
    then have "of_int k * (2::real) powi (binade s - 52) \<le> 0"
      by (simp add: mult_nonpos_nonneg)
    then show False using pos sk by simp
  qed
  have half: "roundToGrid (s / 2) < s"
  proof (cases "- 1022 < binade s")
    case True
    have lo: "2 powi (binade s) \<le> s" using binade_lower [OF True] pos by simp
    have hi: "s < 2 powi (binade s + 1)" using binade_upper [OF b] pos by simp
    have p1: "(2::real) powi (binade s) = 2 * 2 powi (binade s - 1)"
      using powi_add [of 1 "binade s - 1"] by simp
    have p2: "(2::real) powi (binade s + 1) = 2 * 2 powi (binade s)"
      using powi_add [of 1 "binade s"] by (simp add: add.commute)
    have "binade (s / 2) = binade s - 1"
    proof (rule binade_eqI)
      show "2 powi (binade s - 1) \<le> \<bar>s / 2\<bar>" using lo p1 pos by simp
      show "\<bar>s / 2\<bar> < 2 powi (binade s - 1 + 1)" using hi p2 pos by simp
      show "- 1022 \<le> binade s - 1" using True by simp
      show "binade s - 1 \<le> 1025" using b by simp
    qed
    then have q: "binade (s / 2) - 52 = (binade s - 52) - 1" by simp
    have "(2::real) powi (binade s - 52) = 2 * 2 powi ((binade s - 52) - 1)"
      using powi_add [of 1 "(binade s - 52) - 1"] by simp
    then have "s / 2 / 2 powi (binade (s / 2) - 52) = s / 2 powi (binade s - 52)"
      unfolding q by simp
    also have "\<dots> = of_int k" using sk by (metis nonzero_mult_div_cancel_right powi_pos less_irrefl)
    finally have "roundToGrid (s / 2) = s / 2" by (rule roundToGrid_integral)
    then show ?thesis using pos by simp
  next
    case False
    then have bs: "binade s = - 1022" using binade_range(1) [of s] by linarith
    have "s < 2 powi (binade s + 1)" using binade_upper [OF b] pos by simp
    then have "\<bar>s / 2\<bar> < 2 powi (- 1021)" using pos unfolding bs by simp
    then have "binade (s / 2) = - 1022" by (rule binade_subnormal)
    then have bh: "binade (s / 2) = binade s" using bs by simp
    define u where "u = (2::real) powi (binade s - 52)"
    have upos: "0 < u" by (simp add: u_def)
    have su: "s / u = of_int k" using sk upos unfolding u_def [symmetric]
      by (metis nonzero_mult_div_cancel_right less_irrefl)
    have h: "s / 2 / u = of_int k / 2" using su by simp
    have g: "roundToGrid (s / 2) = of_int (roundEven (of_int k / 2)) * u"
      unfolding roundToGrid_def bh u_def [symmetric] h ..
    have "real_of_int (roundEven (of_int k / 2)) < of_int k"
      using roundEven_half_less [OF kpos] by simp
    then have "of_int (roundEven (of_int k / 2)) * u < of_int k * u"
      using upos by (simp add: mult_strict_right_mono)
    moreover have "s = of_int k * u" using sk by (simp add: u_def)
    ultimately show ?thesis using g by linarith
  qed
  have "roundToGrid r \<le> roundToGrid (s / 2)" using r by (rule roundToGrid_mono)
  then show ?thesis using half by linarith
qed

subsection \<open>One rounded step of the running mean\<close>

lemma roundToGrid_pow2: "- 1074 \<le> e \<Longrightarrow> roundToGrid (2 powi e) = 2 powi e"
  by (rule roundToGrid_fixed [where k = 1 and ?q0.0 = e]) simp_all

lemma welford_step_up:
  assumes gm: "roundToGrid m = m" and gx: "roundToGrid x = x" and mx: "m \<le> x"
    and N: "2 \<le> N" and range: "x - m \<le> 2 powi 1024"
  shows "m \<le> roundToGrid (m + roundToGrid (roundToGrid (x - m) / N)) \<and>
         roundToGrid (m + roundToGrid (roundToGrid (x - m) / N)) \<le> x"
proof -
  define t where "t = x - m"
  define s where "s = roundToGrid t"
  define d where "d = roundToGrid (s / N)"
  have p: "(2::real) powi 1024 < 2 powi 1025" by (rule powi_strict_mono) simp
  have t0: "0 \<le> t" using mx by (simp add: t_def)
  have tb: "binade t < 1025" using t0 range p by (intro binade_lt) (simp add: t_def)
  have s0: "0 \<le> s" unfolding s_def using t0 by (rule roundToGrid_nonneg)
  have "s \<le> roundToGrid (2 powi 1024)" unfolding s_def using range
    by (intro roundToGrid_mono) (simp add: t_def)
  then have s1024: "s \<le> 2 powi 1024" by (simp only: roundToGrid_pow2)
  then have sb: "binade s < 1025" using s0 p by (intro binade_lt) simp
  have gs: "roundToGrid s = s" unfolding s_def using tb by (rule roundToGrid_idem)
  have Npos: "0 < N" using N by simp
  have sN0: "0 \<le> s / N" using s0 Npos by simp
  have sN2: "s / N \<le> s / 2" using s0 N Npos by (intro divide_left_mono) simp_all
  have "s / 2 \<le> s" using s0 by linarith
  then have sNs: "s / N \<le> s" using sN2 by (rule order_trans [rotated])
  have "binade (s / N) < 1025" using sN0 sNs s1024 p by (intro binade_lt) simp
  then have gd: "roundToGrid d = d" unfolding d_def by (rule roundToGrid_idem)
  have d0: "0 \<le> d" unfolding d_def using sN0 by (rule roundToGrid_nonneg)
  have dt: "d \<le> t"
  proof (rule ccontr)
    assume "\<not> d \<le> t"
    then have td: "t < d" by simp
    then have "roundToGrid t \<le> roundToGrid d" by (intro roundToGrid_mono) simp
    then have sd: "s \<le> d" by (simp add: s_def gd)
    have "roundToGrid (s / N) \<le> roundToGrid s" using sNs by (rule roundToGrid_mono)
    then have "d \<le> s" by (simp add: d_def gs)
    then have ds: "d = s" using sd by simp
    then have "0 < s" using td t0 by simp
    then have "roundToGrid (s / N) < s" using gs sb sN2 by (rule roundToGrid_half_less)
    then show False using ds by (simp add: d_def)
  qed
  have "roundToGrid m \<le> roundToGrid (m + d)" using d0 by (intro roundToGrid_mono) simp
  moreover have "roundToGrid (m + d) \<le> roundToGrid x"
    using dt by (intro roundToGrid_mono) (simp add: t_def)
  ultimately show ?thesis unfolding d_def s_def t_def gm gx by simp
qed

lemma welford_step:
  assumes gm: "roundToGrid m = m" and gx: "roundToGrid x = x"
    and N: "2 \<le> N" and range: "\<bar>x - m\<bar> \<le> 2 powi 1024"
  shows "min m x \<le> roundToGrid (m + roundToGrid (roundToGrid (x - m) / N)) \<and>
         roundToGrid (m + roundToGrid (roundToGrid (x - m) / N)) \<le> max m x"
proof (cases "m \<le> x")
  case True
  then show ?thesis using welford_step_up [OF gm gx True N] range by simp
next
  case False
  have gm': "roundToGrid (- m) = - m" by (simp add: roundToGrid_minus gm)
  have gx': "roundToGrid (- x) = - x" by (simp add: roundToGrid_minus gx)
  have le: "- m \<le> - x" using False by simp
  have r: "- x - - m \<le> 2 powi 1024" using range False by simp
  have e: "- m + roundToGrid (roundToGrid (- x - - m) / N) =
           - (m + roundToGrid (roundToGrid (x - m) / N))"
  proof -
    have "- x - - m = - (x - m)" by simp
    then have "roundToGrid (- x - - m) = - roundToGrid (x - m)"
      by (simp only: roundToGrid_minus)
    then have "roundToGrid (roundToGrid (- x - - m) / N) = - roundToGrid (roundToGrid (x - m) / N)"
      by (simp add: roundToGrid_minus)
    then show ?thesis by simp
  qed
  from welford_step_up [OF gm' gx' le N r]
  show ?thesis unfolding e roundToGrid_minus using False by simp
qed

subsection \<open>Evaluating float64 operations\<close>

lemma expSearch_numeral:
  "expSearch (numeral n) lo r =
     (if 2 powi (lo + 2 ^ pred_numeral n) \<le> r
      then expSearch (pred_numeral n) (lo + 2 ^ pred_numeral n) r
      else expSearch (pred_numeral n) lo r)"
  by (simp add: numeral_eq_Suc)

lemma Pow2_Finite:
  "r \<noteq> 0 \<Longrightarrow>
   Pow2 (Finite r) =
     fl (roundToGrid (r / 2 powi binade r * (r / 2 powi binade r)) * 2 powi (2 * binade r))"
  by (simp add: Pow2_def isInf_def isZero_def valof_def Let_def)

lemma Pow2_zero: "Pow2 (Finite 0) = Finite 0"
  by (simp add: Pow2_def isInf_def isZero_def)

lemmas float_eval =
  fl_def roundToGrid_def binade_def expSearch_numeral roundEven_def Let_def
  fadd_def fsub_def fmul_def fdiv_def fneg_def flt_def feq_def fle_def isInf_def isZero_def
  valof_def signbit_def zero_def infinity_def float64_of_int64_def Pow2_Finite Pow2_zero

subsection \<open>Rounded results that are numbers\<close>

lemma pow_1024: "(2::real) ^ 1024 = 2 powi 1024"
  by (simp only: power_int_numeral)

lemma roundToGrid_abs_le:
  assumes "\<bar>r\<bar> \<le> 2 powi e" and "- 1074 \<le> e"
  shows "\<bar>roundToGrid r\<bar> \<le> 2 powi e"
proof -
  have g: "roundToGrid (2 powi e) = 2 powi e" using assms(2) by (rule roundToGrid_pow2)
  have "roundToGrid r \<le> roundToGrid (2 powi e)" using assms(1) by (intro roundToGrid_mono) simp
  moreover have "roundToGrid (- (2 powi e)) \<le> roundToGrid r"
    using assms(1) by (intro roundToGrid_mono) simp
  ultimately show ?thesis unfolding roundToGrid_minus g by simp
qed

lemma roundToGrid_below_overflow:
  assumes "\<bar>r\<bar> \<le> 2 powi e" and "- 1074 \<le> e" and "e < 1024"
  shows "\<bar>roundToGrid r\<bar> < 2 ^ 1024"
proof -
  have "\<bar>roundToGrid r\<bar> \<le> 2 powi e" using assms(1,2) by (rule roundToGrid_abs_le)
  moreover have "(2::real) powi e < 2 powi 1024" using assms(3) by (rule powi_strict_mono)
  ultimately show ?thesis unfolding pow_1024 by linarith
qed

lemma fl_Finite_grid: "fl r = Finite r \<Longrightarrow> roundToGrid r = r"
  by (simp add: fl_def Let_def split: if_splits)

lemma fl_value:
  "\<bar>roundToGrid r\<bar> < 2 ^ 1024 \<Longrightarrow> isFinite (fl r) \<and> valof (fl r) = roundToGrid r"
  by (simp add: fl_def Let_def isFinite_def valof_def)

lemma fl_exact:
  assumes "roundToGrid r = r" and "\<bar>r\<bar> < 2 ^ 1024"
  shows "fl r = Finite r"
  using assms by (auto simp: fl_def Let_def)

lemma isFinite_cases:
  "isFinite x \<Longrightarrow> x = Finite (valof x) \<or> (x = NegZero \<and> valof x = 0)"
  by (cases x) (simp_all add: isFinite_def valof_def)

lemma flt_finite: "isFinite x \<Longrightarrow> isFinite y \<Longrightarrow> flt x y = (valof x < valof y)"
  by (cases x; cases y) (simp_all add: isFinite_def flt_def valof_def)

lemma fle_finite: "isFinite x \<Longrightarrow> isFinite y \<Longrightarrow> fle x y = (valof x \<le> valof y)"
  by (cases x; cases y) (auto simp: isFinite_def fle_def flt_def feq_def isInf_def valof_def)

lemma valof_fneg: "valof (fneg x) = - valof x"
  by (cases x) (simp_all add: fneg_def valof_def)

lemma isFinite_fneg: "isFinite (fneg x) = isFinite x"
  by (cases x) (simp_all add: fneg_def isFinite_def)

lemma isFinite_zero: "isFinite (zero b)" "valof (zero b) = 0"
  by (simp_all add: zero_def isFinite_def valof_def)

lemma fadd_finite:
  assumes "isFinite x" and "isFinite y" and "\<bar>roundToGrid (valof x + valof y)\<bar> < 2 ^ 1024"
  shows "isFinite (fadd x y) \<and> valof (fadd x y) = roundToGrid (valof x + valof y)"
proof -
  have n: "x \<noteq> NaN" "y \<noteq> NaN" "\<not> isInf x" "\<not> isInf y"
    using assms(1,2) by (auto simp: isFinite_def isInf_def)
  show ?thesis
  proof (cases "valof x + valof y = 0")
    case True
    then show ?thesis using n by (simp add: fadd_def isFinite_zero)
  next
    case False
    then have "fadd x y = fl (valof x + valof y)" using n by (simp add: fadd_def)
    then show ?thesis using fl_value [OF assms(3)] by simp
  qed
qed

lemma fsub_finite:
  assumes "isFinite x" and "isFinite y" and "\<bar>roundToGrid (valof x - valof y)\<bar> < 2 ^ 1024"
  shows "isFinite (fsub x y) \<and> valof (fsub x y) = roundToGrid (valof x - valof y)"
  using fadd_finite [of x "fneg y"] assms
  by (simp add: fsub_def isFinite_fneg valof_fneg)

lemma fdiv_finite:
  assumes "isFinite x" and "n \<noteq> 0" and "\<bar>roundToGrid (valof x / n)\<bar> < 2 ^ 1024"
  shows "isFinite (fdiv x (Finite n)) \<and> valof (fdiv x (Finite n)) = roundToGrid (valof x / n)"
proof -
  have n: "x \<noteq> NaN" "\<not> isInf x" using assms(1) by (auto simp: isFinite_def isInf_def)
  show ?thesis
  proof (cases "valof x = 0")
    case True
    then have "isZero x" using isFinite_cases [OF assms(1)] by (auto simp: isZero_def)
    then show ?thesis using n assms(2) True
      by (simp add: fdiv_def isInf_def isZero_def isFinite_zero)
  next
    case False
    then have "\<not> isZero x" by (auto simp: isZero_def valof_def)
    then have "fdiv x (Finite n) = fl (valof x / n)"
      using n assms(2) by (simp add: fdiv_def isInf_def isZero_def valof_def)
    then show ?thesis using fl_value [OF assms(3)] by simp
  qed
qed

subsection \<open>The conversion of an int64\<close>

lemma roundToGrid_of_int_pos: "1 \<le> n \<Longrightarrow> 1 \<le> roundToGrid (of_int n)"
proof -
  assume "1 \<le> n"
  then have "roundToGrid 1 \<le> roundToGrid (of_int n)" by (intro roundToGrid_mono) simp
  moreover have "roundToGrid 1 = 1" using roundToGrid_pow2 [of 0] by simp
  ultimately show ?thesis by simp
qed

lemma roundToGrid_of_int_two: "2 \<le> n \<Longrightarrow> 2 \<le> roundToGrid (of_int n)"
proof -
  assume "2 \<le> n"
  then have "roundToGrid 2 \<le> roundToGrid (of_int n)" by (intro roundToGrid_mono) simp
  moreover have "roundToGrid 2 = 2" using roundToGrid_pow2 [of 1] by simp
  ultimately show ?thesis by simp
qed

lemma sint_abs_le: "\<bar>real_of_int (sint (c :: int64))\<bar> \<le> 2 powi 63"
proof -
  have "- (2 ^ 63) \<le> sint c" "sint c < 2 ^ 63" using sint_ge [of c] sint_lt [of c] by simp_all
  then have "\<bar>sint c\<bar> \<le> 2 ^ 63" by simp
  then have "real_of_int \<bar>sint c\<bar> \<le> real_of_int (2 ^ 63)" by (simp only: of_int_le_iff)
  then show ?thesis by simp
qed

lemma float64_of_int64_value:
  "float64_of_int64 c = Finite (roundToGrid (real_of_int (sint c))) \<and>
   \<bar>roundToGrid (real_of_int (sint c))\<bar> \<le> 2 powi 63 \<and>
   roundToGrid (roundToGrid (real_of_int (sint c))) = roundToGrid (real_of_int (sint c))"
proof -
  define r where "r = real_of_int (sint c)"
  have a: "\<bar>r\<bar> \<le> 2 powi 63" unfolding r_def by (rule sint_abs_le)
  then have b: "\<bar>roundToGrid r\<bar> \<le> 2 powi 63" by (rule roundToGrid_abs_le) simp
  have lt: "\<bar>roundToGrid r\<bar> < 2 ^ 1024" using a by (rule roundToGrid_below_overflow) simp_all
  have "(2::real) powi 63 < 2 powi 1025" by (rule powi_strict_mono) simp
  then have "binade r < 1025" using a by (intro binade_lt) simp
  then have idem: "roundToGrid (roundToGrid r) = roundToGrid r" by (rule roundToGrid_idem)
  have nz: "roundToGrid r \<noteq> 0" if "r < 0"
  proof -
    from that have "sint c < 0" unfolding r_def by (simp only: of_int_less_0_iff)
    then have "sint c \<le> - 1" by simp
    then have "r \<le> - 1" unfolding r_def by (metis of_int_le_iff of_int_minus of_int_1)
    then have "roundToGrid r \<le> roundToGrid (- 1)" by (rule roundToGrid_mono)
    moreover have "roundToGrid (- 1) = - 1"
      using roundToGrid_pow2 [of 0] by (simp add: roundToGrid_minus)
    ultimately show ?thesis by simp
  qed
  have "fl r = Finite (roundToGrid r)" using lt nz by (auto simp: fl_def Let_def)
  then show ?thesis using b idem by (simp add: float64_of_int64_def r_def)
qed

subsection \<open>Helper lemmas on the bucket loops\<close>

lemma copyBuckets_same_length:
  "length dst = length src \<Longrightarrow> copyBuckets dst src = Inr src"
  by (induction dst src rule: copyBuckets.induct) auto


lemma sameBuckets_eq:
  "length cs = length ds \<Longrightarrow> sameBuckets cs ds = (cs = ds)"
  by (induction cs ds rule: sameBuckets.induct) auto

lemma bucketIndex_le: "bucketIndex f bs i \<le> i + length bs"
  by (induction f bs i rule: bucketIndex.induct) auto

lemma bucketIndex_takeWhile:
  "bucketIndex f bs i = i + length (takeWhile (\<lambda>b. \<not> flt f b) bs)"
  by (induction f bs i rule: bucketIndex.induct) auto

lemma bucketIndex_first:
  "bucketIndex f bs 0 \<le> length bs \<and>
   (\<forall>i < bucketIndex f bs 0. \<not> flt f (bs ! i)) \<and>
   (bucketIndex f bs 0 < length bs \<longrightarrow> flt f (bs ! bucketIndex f bs 0))"
proof -
  let ?P = "\<lambda>b. \<not> flt f b"
  have k: "bucketIndex f bs 0 = length (takeWhile ?P bs)"
    by (simp add: bucketIndex_takeWhile)
  have "\<forall>i < length (takeWhile ?P bs). ?P (bs ! i)"
    by (metis nth_length_takeWhile takeWhile_nth nth_mem set_takeWhileD)
  moreover have "length (takeWhile ?P bs) < length bs \<longrightarrow> \<not> ?P (bs ! length (takeWhile ?P bs))"
    using nth_length_takeWhile by blast
  ultimately show ?thesis
    unfolding k by (simp add: length_takeWhile_le)
qed

lemma flt_fle_not_flt: "flt b l \<Longrightarrow> fle l x \<Longrightarrow> \<not> flt x b"
  by (cases b; cases l; cases x)
     (auto simp: flt_def fle_def feq_def isInf_def valof_def split: if_splits)

lemma fle_not_flt: "fle l x \<Longrightarrow> \<not> flt x l"
  by (cases l; cases x)
     (auto simp: flt_def fle_def feq_def isInf_def valof_def split: if_splits)

lemma strictly_increasing_below_last:
  "sorted_wrt flt bs \<Longrightarrow> bs \<noteq> [] \<Longrightarrow> \<forall>b \<in> set bs. b = last bs \<or> flt b (last bs)"
proof (induction bs)
  case Nil
  then show ?case by simp
next
  case (Cons b bs)
  then show ?case by (cases bs) auto
qed

lemma bucketIndex_last:
  assumes "sorted_wrt flt bs" and "bs \<noteq> []" and "fle (last bs) f"
  shows "bucketIndex f bs 0 = length bs"
proof -
  have "\<forall>b \<in> set bs. b = last bs \<or> flt b (last bs)"
    using assms(1,2) by (rule strictly_increasing_below_last)
  then have "\<forall>b \<in> set bs. \<not> flt f b"
    using assms(3) by (metis flt_fle_not_flt fle_not_flt)
  then have "takeWhile (\<lambda>b. \<not> flt f b) bs = bs" by (simp add: takeWhile_eq_all_conv)
  then have "length (takeWhile (\<lambda>b. \<not> flt f b) bs) = length bs" by (rule arg_cong)
  then show ?thesis by (simp only: bucketIndex_takeWhile add_0)
qed

subsection \<open>Helper lemmas on int64\<close>

lemma sint_pred:
  fixes c :: int64
  assumes "1 < sint c"
  shows "sint (c - 1) = sint c - 1"
proof -
  have "sint c < 2 ^ 63" using sint_lt [of c] by simp
  then show ?thesis using assms
    by (simp add: sint_word_ariths signed_take_bit_int_eq_self)
qed

lemma sint_succ:
  fixes c :: int64
  assumes "0 \<le> sint c" and "sint c < 2 ^ 63 - 1"
  shows "sint (c + 1) = sint c + 1"
  using assms by (simp add: sint_word_ariths signed_take_bit_int_eq_self)


lemma variance_spec: "variance a = specVariance a"
proof (cases "1 < sint (count a)")
  case True
  then have "sint (count a - 1) = sint (count a) - 1" by (rule sint_pred)
  then have "float64_of_int64 (count a - 1) = fl (real_of_int (sint (count a) - 1))"
    by (simp only: float64_of_int64_def)
  then show ?thesis using True by (simp add: variance_def specVariance_def)
next
  case False
  then show ?thesis by (simp add: variance_def specVariance_def)
qed

lemma divisor_nonzero:
  fixes c :: int64
  assumes "1 < sint c"
  shows "\<not> isZero (float64_of_int64 (c - 1)) \<and> isFinite (float64_of_int64 (c - 1))"
proof -
  have "sint (c - 1) = sint c - 1" using assms by (rule sint_pred)
  then have "1 \<le> sint (c - 1)" using assms by simp
  then have "1 \<le> roundToGrid (real_of_int (sint (c - 1)))" by (rule roundToGrid_of_int_pos)
  then show ?thesis
    using float64_of_int64_value [of "c - 1"] by (auto simp: isZero_def isFinite_def)
qed

subsection \<open>What a successful addSample and addToIt compute\<close>

lemma incrementBucketCount_ok:
  assumes "wellFormed a"
  shows "incrementBucketCount a f =
    Inr (a\<lparr>countPerBucket := (countPerBucket a)[bucketIndex f (bounds a) 0 :=
           countPerBucket a ! bucketIndex f (bounds a) 0 + 1]\<rparr>)"
proof -
  have "bucketIndex f (bounds a) 0 < length (countPerBucket a)"
    using assms bucketIndex_le [of f "bounds a" 0] by (simp add: wellFormed_def)
  then show ?thesis
    using assms
    by (cases "bounds a") (simp_all add: incrementBucketCount_def increment_def wellFormed_def)
qed

lemma addFloat_ok:
  assumes "wellFormed a"
  shows "addFloat a x =
    Inr (a\<lparr>count := count a + 1,
           min_val := (if flt x (min_val a) then x else min_val a),
           max_val := (if flt (max_val a) x then x else max_val a),
           mean := (if count a + 1 = 1 then x
                    else fadd (mean a) (fdiv (fsub x (mean a)) (float64_of_int64 (count a + 1)))),
           sumOfSquaredDev := (if count a + 1 = 1 then sumOfSquaredDev a
              else fadd (sumOfSquaredDev a)
                     (fmul (fsub x (mean a))
                        (fsub x (fadd (mean a)
                           (fdiv (fsub x (mean a)) (float64_of_int64 (count a + 1))))))),
           countPerBucket := (countPerBucket a)[bucketIndex x (bounds a) 0 :=
              countPerBucket a ! bucketIndex x (bounds a) 0 + 1]\<rparr>)"
proof -
  let ?a1 = "(if flt x (min_val a) then a\<lparr>min_val := x\<rparr> else a)"
  let ?a2 = "(if flt (max_val ?a1) x then ?a1\<lparr>max_val := x\<rparr> else ?a1)"
  let ?a3 = "?a2\<lparr>count := count ?a2 + 1\<rparr>"
  have wf: "wellFormed ?a3" using assms by (simp add: wellFormed_def)
  show ?thesis
    unfolding addFloat_def Let_def incrementBucketCount_ok [OF wf]
    by simp
qed

lemma Dist_addSample_numeric:
  "numericValue v = Some x \<Longrightarrow> Dist_addSample a v = addFloat a x"
  by (cases v) (auto simp: numericValue_def Dist_addSample_def)






subsection \<open>Initial and cleared state\<close>

text \<open>
  Claim C1, as the code has it. A distribution aggregator made by
  \<open>newAggregationDistributionValue\<close>, and any distribution aggregator after \<open>clear\<close>,
  has count 0, mean 0, sumOfSquaredDev 0, every bucket count 0 (one bucket more than
  bounds for a new aggregator, the same number of buckets as before for a cleared one)
  and min equal to \<open>math.MaxFloat64\<close>, the largest finite float64; \<open>clear\<close> keeps the
  bounds. Nothing is stated about max.
\<close>

theorem new_and_clear_zeroed:
  "count (newAggregationDistributionValue bs) = 0 \<and>
   mean (newAggregationDistributionValue bs) = Finite 0 \<and>
   sumOfSquaredDev (newAggregationDistributionValue bs) = Finite 0 \<and>
   countPerBucket (newAggregationDistributionValue bs) = replicate (length bs + 1) 0 \<and>
   min_val (newAggregationDistributionValue bs) = MaxFloat64 \<and>
   bounds (newAggregationDistributionValue bs) = bs \<and>
   count (Dist_clear a) = 0 \<and>
   mean (Dist_clear a) = Finite 0 \<and>
   sumOfSquaredDev (Dist_clear a) = Finite 0 \<and>
   countPerBucket (Dist_clear a) = replicate (length (countPerBucket a)) 0 \<and>
   min_val (Dist_clear a) = MaxFloat64 \<and>
   bounds (Dist_clear a) = bounds a"
  by (simp add: newAggregationDistributionValue_def Dist_clear_def map_replicate_const)

text \<open>
  Claim C1 as stated asks for min equal to plus infinity and max equal to minus
  infinity. In a new aggregator and in a cleared one max is
  \<open>math.SmallestNonzeroFloat64\<close>, a number above zero (so above every negative sample),
  and min is the finite number \<open>math.MaxFloat64\<close>, below plus infinity.
\<close>

theorem new_and_clear_sentinels_finite:
  "flt (Finite 0) (max_val (newAggregationDistributionValue [])) \<and>
   flt (Finite 0) (max_val (Dist_clear (newAggregationDistributionValue []))) \<and>
   flt (min_val (newAggregationDistributionValue [])) PosInf \<and>
   flt (min_val (Dist_clear (newAggregationDistributionValue []))) PosInf \<and>
   isFinite (max_val (newAggregationDistributionValue [])) \<and>
   isFinite (min_val (newAggregationDistributionValue []))"
  by (simp add: newAggregationDistributionValue_def Dist_clear_def
      SmallestNonzeroFloat64_def MaxFloat64_def flt_def valof_def isFinite_def)

subsection \<open>Scaling a distribution by a fraction\<close>

text \<open>
  Claim C6. For every distribution aggregator with one bucket more than bounds and every
  fraction \<open>f\<close>, \<open>multiplyByFraction f\<close> returns a new aggregator equal to the receiver
  in every field (count, min, max, mean, sumOfSquaredDev, bucket counts, bounds),
  whatever \<open>f\<close> is, and the receiver is left as it was.
\<close>

theorem Dist_multiplyByFraction_copy:
  "wellFormed a \<Longrightarrow> Dist_multiplyByFraction a f = Inr (a, a)"
  by (simp add: Dist_multiplyByFraction_def wellFormed_def
      newAggregationDistributionValue_def copyBuckets_same_length)

theorem Dist_multiplyByFraction_copy_witness:
  "wellFormed scenarioB2 \<and>
   Dist_multiplyByFraction scenarioB2 (Finite (1 / 4)) = Inr (scenarioB2, scenarioB2)"
  using Dist_multiplyByFraction_copy [of scenarioB2 "Finite (1 / 4)"]
  by (simp add: wellFormed_def scenarioB2_def)

subsection \<open>The count aggregator\<close>

text \<open>
  Claim C9. For every count aggregator \<open>a\<close> and every value \<open>v\<close> passed to \<open>addSample\<close>,
  numeric or not, the counter becomes \<open>a + 1\<close> (in int64 arithmetic); \<open>v\<close> plays no part.
\<close>

theorem Count_addSample_increments:
  "Count_addSample a v = a + 1"
  by (simp add: Count_addSample_def)

subsection \<open>Operations across the two variants\<close>

text \<open>
  Claim C10. \<open>addToIt\<close> on a count aggregator with an argument that is not a count (a
  distribution pointer, nil or not, or the nil interface), and \<open>addToIt\<close> on a
  distribution aggregator with an argument that is not a distribution, return normally
  and leave the receiver as it was. \<open>equal\<close> across the two variants, against the nil
  interface, or on a distribution receiver against a nil distribution pointer, is false.
\<close>

theorem cross_variant_noop_and_unequal:
  "Count_addToIt c (DistributionPtr p) = Inr c \<and>
   Count_addToIt c NilInterface = Inr c \<and>
   Dist_addToIt d (CountPtr q) = Inr d \<and>
   Dist_addToIt d NilInterface = Inr d \<and>
   Count_equal c (DistributionPtr p) = Inr False \<and>
   Count_equal c NilInterface = Inr False \<and>
   Dist_equal d (CountPtr q) = False \<and>
   Dist_equal d NilInterface = False \<and>
   Dist_equal d (DistributionPtr None) = False"
  by (simp add: Count_addToIt_def Dist_addToIt_def Count_equal_def Dist_equal_def)

subsection \<open>Adding a sample to a distribution\<close>

text \<open>
  Claim C2, as the code has it. A sample that is not numeric leaves the whole state as
  it was, for every state. For every distribution aggregator with one bucket more than
  bounds and count \<open>c\<close>, and every numeric sample, \<open>addSample\<close> returns normally and
  works on the float64 value \<open>x\<close> of the sample: the sample itself for a float64, the
  nearest float64 for an int64. It sets count to \<open>c + 1\<close> (int64 arithmetic), and: if
  \<open>c + 1 = 1\<close> then mean becomes \<open>x\<close> and sumOfSquaredDev is unchanged; otherwise mean
  becomes \<open>mean + (x - mean) / float64(c + 1)\<close> and sumOfSquaredDev becomes
  \<open>sumOfSquaredDev + (x - oldMean) * (x - newMean)\<close>, where every operation is the
  float64 operation, which rounds its result (for \<open>c = -1\<close> the division is a float64
  division by zero); min is lowered to \<open>x\<close> if \<open>x < min\<close>, max is raised to \<open>x\<close> if
  \<open>x > max\<close>, in the float64 comparison; the bounds stay.
\<close>

theorem Dist_addSample_welford:
  "(numericValue v = None \<longrightarrow> Dist_addSample a v = Inr a) \<and>
   (wellFormed a \<and> numericValue v = Some x \<longrightarrow>
      (\<exists>a'. Dist_addSample a v = Inr a' \<and>
         count a' = count a + 1 \<and>
         (count a + 1 = 1 \<longrightarrow> mean a' = x \<and> sumOfSquaredDev a' = sumOfSquaredDev a) \<and>
         (count a + 1 \<noteq> 1 \<longrightarrow>
            mean a' = fadd (mean a) (fdiv (fsub x (mean a)) (float64_of_int64 (count a + 1))) \<and>
            sumOfSquaredDev a' =
              fadd (sumOfSquaredDev a) (fmul (fsub x (mean a)) (fsub x (mean a')))) \<and>
         min_val a' = (if flt x (min_val a) then x else min_val a) \<and>
         max_val a' = (if flt (max_val a) x then x else max_val a) \<and>
         bounds a' = bounds a))"
proof (intro conjI impI)
  assume "numericValue v = None"
  then show "Dist_addSample a v = Inr a"
    by (cases v) (simp_all add: numericValue_def Dist_addSample_def)
next
  assume h: "wellFormed a \<and> numericValue v = Some x"
  then have "Dist_addSample a v = addFloat a x"
    by (simp add: Dist_addSample_numeric)
  then show "\<exists>a'. Dist_addSample a v = Inr a' \<and>
         count a' = count a + 1 \<and>
         (count a + 1 = 1 \<longrightarrow> mean a' = x \<and> sumOfSquaredDev a' = sumOfSquaredDev a) \<and>
         (count a + 1 \<noteq> 1 \<longrightarrow>
            mean a' = fadd (mean a) (fdiv (fsub x (mean a)) (float64_of_int64 (count a + 1))) \<and>
            sumOfSquaredDev a' =
              fadd (sumOfSquaredDev a) (fmul (fsub x (mean a)) (fsub x (mean a')))) \<and>
         min_val a' = (if flt x (min_val a) then x else min_val a) \<and>
         max_val a' = (if flt (max_val a) x then x else max_val a) \<and>
         bounds a' = bounds a"
    using h by (simp add: addFloat_ok)
qed

theorem Dist_addSample_welford_witness:
  "wellFormed scenarioB1 \<and> numericValue (Float64 (Finite 5)) = Some (Finite 5) \<and>
   (\<exists>a'. Dist_addSample scenarioB1 (Float64 (Finite 5)) = Inr a' \<and> count a' = 2 \<and>
      mean a' = Finite 3 \<and> sumOfSquaredDev a' = Finite 8 \<and> min_val a' = Finite 1 \<and>
      max_val a' = Finite 5)"
proof -
  have h: "wellFormed scenarioB1 \<and> numericValue (Float64 (Finite 5)) = Some (Finite 5)"
    by (simp add: wellFormed_def scenarioB1_def numericValue_def)
  from Dist_addSample_welford [of "Float64 (Finite 5)" scenarioB1 "Finite 5"] h
  obtain a' where r: "Dist_addSample scenarioB1 (Float64 (Finite 5)) = Inr a'"
    and c: "count a' = count scenarioB1 + 1"
    and m: "count scenarioB1 + 1 \<noteq> 1 \<longrightarrow>
            mean a' = fadd (mean scenarioB1) (fdiv (fsub (Finite 5) (mean scenarioB1))
                        (float64_of_int64 (count scenarioB1 + 1))) \<and>
            sumOfSquaredDev a' = fadd (sumOfSquaredDev scenarioB1)
                        (fmul (fsub (Finite 5) (mean scenarioB1)) (fsub (Finite 5) (mean a')))"
    and lo: "min_val a' = (if flt (Finite 5) (min_val scenarioB1) then Finite 5 else min_val scenarioB1)"
    and hi: "max_val a' = (if flt (max_val scenarioB1) (Finite 5) then Finite 5 else max_val scenarioB1)"
    by blast
  have mean: "mean a' = Finite 3" using m by (simp add: scenarioB1_def float_eval)
  have "sumOfSquaredDev a' = Finite 8" using m unfolding mean by (simp add: scenarioB1_def float_eval)
  moreover have "count a' = 2" using c by (simp add: scenarioB1_def)
  moreover have "min_val a' = Finite 1" using lo by (simp add: scenarioB1_def float_eval)
  moreover have "max_val a' = Finite 5" using hi by (simp add: scenarioB1_def float_eval)
  ultimately show ?thesis using h r mean by blast
qed

text \<open>
  Claim C2 as stated takes the sample and the arithmetic as exact. The int64 sample
  \<open>2^53 + 1\<close> added to a new aggregator leaves the mean \<open>2^53\<close>, which is not the
  sample. The sample 2.0 added to an aggregator that holds 1.0 twice leaves the mean
  \<open>6004799503160661 / 2^52\<close>, the float64 below 4/3, which is not \<open>1 + (2 - 1) / 3\<close>.
\<close>

theorem Dist_addSample_rounds:
  "real_of_int (sint (9007199254740993 :: int64)) = 9007199254740993 \<and>
   (\<exists>a'. Dist_addSample (newAggregationDistributionValue []) (Int64 9007199254740993) = Inr a' \<and>
      count a' = 1 \<and> mean a' = Finite 9007199254740992) \<and>
   wellFormed twoOnes \<and>
   (\<exists>a'. Dist_addSample twoOnes (Float64 (Finite 2)) = Inr a' \<and>
      mean a' = Finite (6004799503160661 / 2 ^ 52) \<and>
      6004799503160661 / 2 ^ 52 \<noteq> valof (mean twoOnes) + (2 - valof (mean twoOnes)) / 3)"
proof -
  have wf: "wellFormed (newAggregationDistributionValue [])"
    by (simp add: wellFormed_def newAggregationDistributionValue_def)
  have c: "float64_of_int64 9007199254740993 = Finite 9007199254740992"
    by (simp add: float_eval)
  have r: "Dist_addSample (newAggregationDistributionValue []) (Int64 9007199254740993) =
          addFloat (newAggregationDistributionValue []) (Finite 9007199254740992)"
    by (simp add: Dist_addSample_def c)
  have a: "\<exists>a'. Dist_addSample (newAggregationDistributionValue []) (Int64 9007199254740993) = Inr a' \<and>
      count a' = 1 \<and> mean a' = Finite 9007199254740992"
    unfolding r addFloat_ok [OF wf] by (simp add: newAggregationDistributionValue_def)
  have wf2: "wellFormed twoOnes" by (simp add: wellFormed_def twoOnes_def)
  have m: "fadd (Finite 1) (fdiv (fsub (Finite 2) (Finite 1)) (float64_of_int64 3)) =
      Finite (6004799503160661 / 2 ^ 52)"
    by (simp add: float_eval)
  have r2: "Dist_addSample twoOnes (Float64 (Finite 2)) = addFloat twoOnes (Finite 2)"
    by (simp add: Dist_addSample_def)
  have b: "\<exists>a'. Dist_addSample twoOnes (Float64 (Finite 2)) = Inr a' \<and>
      mean a' = Finite (6004799503160661 / 2 ^ 52)"
    unfolding r2 addFloat_ok [OF wf2] using m by (simp add: twoOnes_def)
  have d: "(6004799503160661 / 2 ^ 52 :: real) \<noteq> valof (mean twoOnes) + (2 - valof (mean twoOnes)) / 3"
    by (simp add: twoOnes_def valof_def)
  have s: "real_of_int (sint (9007199254740993 :: int64)) = 9007199254740993" by simp
  from s a wf2 b d show ?thesis by blast
qed

subsection \<open>Bucket placement\<close>

text \<open>
  Claim C4, as the code has it. For every distribution aggregator with one bucket more
  than bounds, whose bounds are strictly increasing, and every numeric sample of
  float64 value \<open>x\<close> (the nearest float64 for an int64), \<open>addSample\<close> returns normally
  and adds 1 to exactly one bucket count, at an index \<open>k\<close>, leaving the others as they
  were: \<open>k\<close> is the first index with \<open>x < bounds[k]\<close> (no earlier bound is above \<open>x\<close>),
  or the last bucket \<open>k = len(bounds)\<close> when no bound is above \<open>x\<close>, which is the case
  when \<open>x\<close> is at least the last bound; with no bounds, \<open>k = 0\<close>. The comparisons are
  those of float64.
\<close>

theorem incrementBucketCount_placement:
  assumes "wellFormed a" and "sorted_wrt flt (bounds a)" and "numericValue v = Some x"
  shows "\<exists>a' k. Dist_addSample a v = Inr a' \<and>
           k < length (countPerBucket a) \<and>
           countPerBucket a' = (countPerBucket a)[k := countPerBucket a ! k + 1] \<and>
           k \<le> length (bounds a) \<and>
           (\<forall>i < k. \<not> flt x (bounds a ! i)) \<and>
           (k < length (bounds a) \<longrightarrow> flt x (bounds a ! k)) \<and>
           (bounds a \<noteq> [] \<and> fle (last (bounds a)) x \<longrightarrow> k = length (bounds a)) \<and>
           (bounds a = [] \<longrightarrow> k = 0)"
proof -
  let ?k = "bucketIndex x (bounds a) 0"
  have first: "?k \<le> length (bounds a) \<and> (\<forall>i < ?k. \<not> flt x (bounds a ! i)) \<and>
      (?k < length (bounds a) \<longrightarrow> flt x (bounds a ! ?k))"
    by (rule bucketIndex_first)
  then have lt: "?k < length (countPerBucket a)"
    using assms(1) by (simp add: wellFormed_def)
  have lst: "bounds a \<noteq> [] \<and> fle (last (bounds a)) x \<longrightarrow> ?k = length (bounds a)"
    using bucketIndex_last [OF assms(2)] by blast
  have emp: "bounds a = [] \<longrightarrow> ?k = 0" by simp
  have run: "Dist_addSample a v = addFloat a x"
    using assms(3) by (rule Dist_addSample_numeric)
  obtain a' where a': "addFloat a x = Inr a'"
    and cs: "countPerBucket a' = (countPerBucket a)[?k := countPerBucket a ! ?k + 1]"
    by (simp add: addFloat_ok [OF assms(1)])
  have "Dist_addSample a v = Inr a' \<and>
           ?k < length (countPerBucket a) \<and>
           countPerBucket a' = (countPerBucket a)[?k := countPerBucket a ! ?k + 1] \<and>
           ?k \<le> length (bounds a) \<and>
           (\<forall>i < ?k. \<not> flt x (bounds a ! i)) \<and>
           (?k < length (bounds a) \<longrightarrow> flt x (bounds a ! ?k)) \<and>
           (bounds a \<noteq> [] \<and> fle (last (bounds a)) x \<longrightarrow> ?k = length (bounds a)) \<and>
           (bounds a = [] \<longrightarrow> ?k = 0)"
    using run a' cs first lt lst emp by (intro conjI) simp_all
  then show ?thesis
    by (intro exI)
qed

theorem incrementBucketCount_placement_witness:
  "wellFormed scenarioB1 \<and> sorted_wrt flt (bounds scenarioB1) \<and>
   numericValue (Float64 (Finite 5)) = Some (Finite 5) \<and>
   (\<exists>a'. Dist_addSample scenarioB1 (Float64 (Finite 5)) = Inr a' \<and> countPerBucket a' = [1, 1])"
proof -
  have h: "wellFormed scenarioB1" "sorted_wrt flt (bounds scenarioB1)"
    "numericValue (Float64 (Finite 5)) = Some (Finite 5)"
    by (simp_all add: wellFormed_def scenarioB1_def numericValue_def)
  from incrementBucketCount_placement [OF h]
  obtain a' k where r: "Dist_addSample scenarioB1 (Float64 (Finite 5)) = Inr a'"
    and cs: "countPerBucket a' = (countPerBucket scenarioB1)[k := countPerBucket scenarioB1 ! k + 1]"
    and k: "bounds scenarioB1 \<noteq> [] \<and> fle (last (bounds scenarioB1)) (Finite 5) \<longrightarrow>
              k = length (bounds scenarioB1)"
    by blast
  from k have "k = 1" by (simp add: scenarioB1_def float_eval)
  with cs have "countPerBucket a' = [1, 1]" by (simp add: scenarioB1_def)
  with r h show ?thesis by blast
qed

text \<open>
  Claim C4 as stated compares the sample with the bounds. With the single bound
  \<open>2^53 + 4\<close>, a float64, the int64 sample \<open>2^53 + 3\<close> is below the bound, so the claim
  puts it into bucket 0; \<open>addSample\<close> converts it to the float64 \<open>2^53 + 4\<close> and
  increments bucket 1.
\<close>

theorem placement_after_conversion:
  "wellFormed (newAggregationDistributionValue [Finite 9007199254740996]) \<and>
   isFloat64 (Finite 9007199254740996) \<and>
   real_of_int (sint (9007199254740995 :: int64)) < 9007199254740996 \<and>
   (\<exists>a'. Dist_addSample (newAggregationDistributionValue [Finite 9007199254740996])
            (Int64 9007199254740995) = Inr a' \<and>
         countPerBucket a' = [0, 1])"
proof -
  have wf: "wellFormed (newAggregationDistributionValue [Finite 9007199254740996])"
    by (simp add: wellFormed_def newAggregationDistributionValue_def)
  have fb: "isFloat64 (Finite 9007199254740996)"
    by (simp add: isFloat64_def float_eval)
  have c: "float64_of_int64 9007199254740995 = Finite 9007199254740996"
    by (simp add: float_eval)
  have r: "Dist_addSample (newAggregationDistributionValue [Finite 9007199254740996])
            (Int64 9007199254740995) =
           addFloat (newAggregationDistributionValue [Finite 9007199254740996])
            (Finite 9007199254740996)"
    by (simp add: Dist_addSample_def c)
  have a: "\<exists>a'. Dist_addSample (newAggregationDistributionValue [Finite 9007199254740996])
            (Int64 9007199254740995) = Inr a' \<and>
         countPerBucket a' = [0, 1]"
    unfolding r addFloat_ok [OF wf]
    by (simp add: newAggregationDistributionValue_def flt_def valof_def)
  have s: "real_of_int (sint (9007199254740995 :: int64)) < 9007199254740996" by simp
  from wf fb s a show ?thesis by blast
qed

subsection \<open>Merging two distributions\<close>






subsection \<open>Scaling a count by a fraction\<close>






subsection \<open>Equality of distributions\<close>

lemma epsilon_value: "epsilon = Finite (4835703278458517 / 2 ^ 82)"
  by (simp add: epsilon_def float_eval)

text \<open>
  Claim C8, as the code has it. For every two distribution aggregators \<open>a\<close> and \<open>b\<close>,
  \<open>a.equal(b)\<close> is true if and only if their countPerBucket slices are equal (same
  length, same elements), \<open>a.count = b.count\<close>, \<open>a.min == b.min\<close>, \<open>a.max == b.max\<close>,
  \<open>math.Pow(a.mean - b.mean, 2) < epsilon\<close> and
  \<open>math.Pow(a.variance - b.variance, 2) < epsilon\<close>, where the differences, the squares
  and the comparisons are those of float64, \<open>epsilon\<close> is the float64
  \<open>4835703278458517 / 2^82\<close> that \<open>math.Pow10(-9)\<close> returns, and the variance is
  \<open>sumSq / float64(count - 1)\<close> when \<open>count > 1\<close> and 0 otherwise; the variance the code
  computes is that one, and where it divides, the divisor is not zero.
\<close>

theorem Dist_equal_iff:
  "Dist_equal a (DistributionPtr (Some b)) =
     (countPerBucket a = countPerBucket b \<and> count a = count b \<and>
      feq (min_val a) (min_val b) \<and> feq (max_val a) (max_val b) \<and>
      flt (Pow2 (fsub (mean a) (mean b))) (Finite (4835703278458517 / 2 ^ 82)) \<and>
      flt (Pow2 (fsub (specVariance a) (specVariance b))) (Finite (4835703278458517 / 2 ^ 82))) \<and>
   variance a = specVariance a \<and> variance b = specVariance b \<and>
   (1 < sint (count a) \<longrightarrow> \<not> isZero (float64_of_int64 (count a - 1))) \<and>
   (1 < sint (count b) \<longrightarrow> \<not> isZero (float64_of_int64 (count b - 1)))"
proof -
  have "Dist_equal a (DistributionPtr (Some b)) =
     (countPerBucket a = countPerBucket b \<and> count a = count b \<and>
      feq (min_val a) (min_val b) \<and> feq (max_val a) (max_val b) \<and>
      flt (Pow2 (fsub (mean a) (mean b))) (Finite (4835703278458517 / 2 ^ 82)) \<and>
      flt (Pow2 (fsub (specVariance a) (specVariance b))) (Finite (4835703278458517 / 2 ^ 82)))"
    unfolding epsilon_value [symmetric]
    by (cases "length (countPerBucket a) = length (countPerBucket b)")
       (auto simp: Dist_equal_def sameBuckets_eq variance_spec)
  then show ?thesis
    using divisor_nonzero [of "count a"] divisor_nonzero [of "count b"]
    by (simp add: variance_spec)
qed

theorem Dist_equal_iff_witness:
  "1 < sint (count scenarioB2) \<and>
   Dist_equal scenarioB2 (DistributionPtr (Some scenarioB2)) \<and>
   \<not> Dist_equal scenarioB2 (DistributionPtr (Some (scenarioB2\<lparr>mean := Finite 4\<rparr>))) \<and>
   \<not> isZero (float64_of_int64 (count scenarioB2 - 1))"
proof -
  have c: "1 < sint (count scenarioB2)" by (simp add: scenarioB2_def)
  have v: "specVariance scenarioB2 = Finite 8"
    by (simp add: specVariance_def scenarioB2_def float_eval)
  have e: "Dist_equal scenarioB2 (DistributionPtr (Some scenarioB2))"
    using Dist_equal_iff [of scenarioB2 scenarioB2] unfolding v
    by (simp add: scenarioB2_def float_eval)
  have v': "specVariance (scenarioB2\<lparr>mean := Finite 4\<rparr>) = Finite 8"
    by (simp add: specVariance_def scenarioB2_def float_eval)
  have n: "\<not> Dist_equal scenarioB2 (DistributionPtr (Some (scenarioB2\<lparr>mean := Finite 4\<rparr>)))"
    using Dist_equal_iff [of scenarioB2 "scenarioB2\<lparr>mean := Finite 4\<rparr>"] unfolding v v'
    by (simp add: scenarioB2_def float_eval)
  have d: "\<not> isZero (float64_of_int64 (count scenarioB2 - 1))"
    using Dist_equal_iff [of scenarioB2 scenarioB2] c by blast
  from c e n d show ?thesis by blast
qed

text \<open>
  Claim C8 as stated takes the arithmetic as exact. The states \<open>nearMeanA\<close> and
  \<open>nearMeanB\<close> agree in every field but the mean, and the square of the difference of
  their means is below \<open>1e-9\<close>; the float64 difference of the means rounds to the mean
  of \<open>nearMeanA\<close>, whose float64 square is not below \<open>math.Pow10(-9)\<close>, and \<open>equal\<close>
  returns false.
\<close>

theorem Dist_equal_rounds:
  "isFloat64 (mean nearMeanA) \<and> isFloat64 (mean nearMeanB) \<and>
   countPerBucket nearMeanA = countPerBucket nearMeanB \<and> count nearMeanA = count nearMeanB \<and>
   min_val nearMeanA = min_val nearMeanB \<and> max_val nearMeanA = max_val nearMeanB \<and>
   sumOfSquaredDev nearMeanA = sumOfSquaredDev nearMeanB \<and>
   (valof (mean nearMeanA) - valof (mean nearMeanB)) ^ 2 < 1 / 10 ^ 9 \<and>
   \<not> Dist_equal nearMeanA (DistributionPtr (Some nearMeanB))"
proof -
  have a: "isFloat64 (mean nearMeanA)" "isFloat64 (mean nearMeanB)"
    by (simp_all add: nearMeanA_def nearMeanB_def isFloat64_def float_eval)
  have b: "countPerBucket nearMeanA = countPerBucket nearMeanB" "count nearMeanA = count nearMeanB"
    "min_val nearMeanA = min_val nearMeanB" "max_val nearMeanA = max_val nearMeanB"
    "sumOfSquaredDev nearMeanA = sumOfSquaredDev nearMeanB"
    by (simp_all add: nearMeanA_def nearMeanB_def)
  have c: "(valof (mean nearMeanA) - valof (mean nearMeanB)) ^ 2 < 1 / 10 ^ 9"
    by (simp add: nearMeanA_def nearMeanB_def scenarioB2_def valof_def power2_eq_square)
  have d: "fsub (Finite (4666698134970813 / 2 ^ 67)) (Finite (3 / 2 ^ 70)) =
           Finite (4666698134970813 / 2 ^ 67)"
    by (simp add: float_eval)
  have e: "\<not> flt (Pow2 (Finite (4666698134970813 / 2 ^ 67))) epsilon"
    unfolding epsilon_value by (simp add: float_eval)
  have "\<not> Dist_equal nearMeanA (DistributionPtr (Some nearMeanB))"
    using d e by (simp add: Dist_equal_def nearMeanA_def nearMeanB_def)
  with a b c show ?thesis by blast
qed

subsection \<open>Invariants of the reachable states\<close>












end
